theory Spec2Isabelle
  imports Complex_Main "HOL-Library.Multiset" "HOL-Library.AList"
begin

section \<open>Escape-time classifier\<close>

text \<open>
  The Python source \<^verbatim>\<open>python/project_threads.py\<close> computes with \<^verbatim>\<open>float\<close> coordinates and
  unbounded \<^verbatim>\<open>int\<close> counters. Coordinates are embedded as exact \<^typ>\<open>real\<close> numbers (rounding,
  overflow, infinities and NaN of IEEE doubles are outside this model), counters and sizes
  as \<^typ>\<open>int\<close>.

  \<^verbatim>\<open>mandelbrodt_pixel\<close> is a \<^verbatim>\<open>while counter <= steps\<close> loop over the state
  \<open>(re_z, im_z, counter)\<close>. The loop function returns the value of the \<^verbatim>\<open>return\<close> statement
  together with the final value of \<^verbatim>\<open>counter\<close>, which is incremented once at the start of
  every pass through the body and therefore counts the iterations attempted.
\<close>

function mandelbrodt_while :: "real \<Rightarrow> real \<Rightarrow> int \<Rightarrow> real \<times> real \<times> int \<Rightarrow> bool \<times> int" where
  "mandelbrodt_while x y steps (re_z, im_z, counter) =
     (if counter \<le> steps then
        (let counter' = counter + 1;
             re_z_square = re_z ^ 2;
             im_z_square = im_z ^ 2;
             re_buf = re_z;
             im_buf = im_z;
             re_z' = re_z_square - im_z_square + x;
             im_z' = 2 * re_buf * im_buf + y
         in if re_z_square + im_z_square \<ge> 4 then (False, counter')
            else mandelbrodt_while x y steps (re_z', im_z', counter'))
      else (True, counter))"
  by pat_completeness auto
termination
  by (relation "measure (\<lambda>(x, y, steps, re_z, im_z, counter). nat (steps + 1 - counter))") auto

definition mandelbrodt_pixel :: "real \<Rightarrow> real \<Rightarrow> int \<Rightarrow> bool" where
  "mandelbrodt_pixel x y steps = fst (mandelbrodt_while x y steps (0, 0, 0))"





section \<open>Grid generator and band partitioner\<close>

text \<open>
  Python primitives used by \<^verbatim>\<open>get_xy_pairs\<close>: \<^verbatim>\<open>range(n)\<close> (empty for \<open>n \<le> 0\<close>), \<^verbatim>\<open>int(r)\<close>
  on a float (truncation towards zero), list indexing \<^verbatim>\<open>xs[i]\<close> (negative indices count from
  the end, anything else out of range raises \<^verbatim>\<open>IndexError\<close>) and slicing \<^verbatim>\<open>xs[a:b]\<close> (negative
  bounds count from the end, all bounds are clamped, never raises).
\<close>

datatype py_error = ZeroDivisionError | IndexError

definition py_range :: "int \<Rightarrow> int list" where
  "py_range n = [0..n - 1]"

definition py_int :: "real \<Rightarrow> int" where
  "py_int r = (if r \<ge> 0 then \<lfloor>r\<rfloor> else \<lceil>r\<rceil>)"

definition py_index :: "'a list \<Rightarrow> int \<Rightarrow> py_error + 'a" where
  "py_index xs i =
     (if 0 \<le> i \<and> i < int (length xs) then Inr (xs ! nat i)
      else if i < 0 \<and> - int (length xs) \<le> i then Inr (xs ! nat (i + int (length xs)))
      else Inl IndexError)"

definition py_slice_bound :: "int \<Rightarrow> int \<Rightarrow> int" where
  "py_slice_bound n i = (if i < 0 then max (i + n) 0 else min i n)"

definition py_slice :: "'a list \<Rightarrow> int \<Rightarrow> int \<Rightarrow> 'a list" where
  "py_slice xs a b =
     (let n = int (length xs); lo = py_slice_bound n a; hi = py_slice_bound n b
      in take (nat (hi - lo)) (drop (nat lo) xs))"

text \<open>
  Lines 57 to 68 of \<^verbatim>\<open>get_xy_pairs\<close>: the two coordinate sequences. The division by
  \<^verbatim>\<open>side_size\<close> raises \<^verbatim>\<open>ZeroDivisionError\<close> when \<^verbatim>\<open>side_size\<close> is 0.
\<close>

definition grid_values :: "int \<Rightarrow> real \<times> real \<Rightarrow> real \<times> real \<Rightarrow> py_error + (real list \<times> real list)" where
  "grid_values side_size xrange yrange =
     (let (x_min, x_max) = xrange;
          (x_min, x_max) = (if x_min > x_max then (x_max, x_min) else (x_min, x_max))
      in if side_size = 0 then Inl ZeroDivisionError
         else
           let x_step = (x_max - x_min) / real_of_int side_size;
               (y_min, y_max) = yrange;
               (y_min, y_max) = (if y_min > y_max then (y_max, y_min) else (y_min, y_max));
               y_step = (y_max - y_min) / real_of_int side_size;
               x_values = map (\<lambda>x. x_min + real_of_int x * x_step) (py_range side_size);
               y_values = map (\<lambda>y. y_min + real_of_int y * y_step) (py_range side_size)
           in Inr (x_values, y_values))"

text \<open>
  Lines 73 to 76: the loop \<^verbatim>\<open>for i in range(workers)\<close> appending one band per pass to
  \<^verbatim>\<open>super_pairs\<close>. A band is the comprehension over the slice
  \<^verbatim>\<open>x_values[intervals[i]:intervals[i+1]]\<close> (outer) and all of \<^verbatim>\<open>y_values\<close> (inner).
\<close>

fun band_loop :: "real list \<Rightarrow> real list \<Rightarrow> int list \<Rightarrow> int list \<Rightarrow> (real \<times> real) list list
    \<Rightarrow> py_error + (real \<times> real) list list" where
  "band_loop x_values y_values intervals [] super_pairs = Inr super_pairs"
| "band_loop x_values y_values intervals (i # rest) super_pairs =
     (case py_index intervals i of
        Inl e \<Rightarrow> Inl e
      | Inr a \<Rightarrow>
         (case py_index intervals (i + 1) of
            Inl e \<Rightarrow> Inl e
          | Inr b \<Rightarrow>
             band_loop x_values y_values intervals rest
               (super_pairs @ [concat (map (\<lambda>x. map (\<lambda>y. (x, y)) y_values) (py_slice x_values a b))])))"

text \<open>
  \<^verbatim>\<open>get_xy_pairs\<close> reads the module-level variable \<^verbatim>\<open>num_workers\<close> for the interval
  length and the interval table, and its own parameter \<^verbatim>\<open>workers\<close> for the loop; the
  caller passes the same number for both. The global is the first argument here.
  \<^verbatim>\<open>int(side_size / num_workers)\<close> is a float division followed by truncation.
\<close>

definition get_xy_pairs :: "int \<Rightarrow> int \<Rightarrow> int \<Rightarrow> real \<times> real \<Rightarrow> real \<times> real
    \<Rightarrow> py_error + (real \<times> real) list list" where
  "get_xy_pairs num_workers workers side_size xrange yrange =
     (case grid_values side_size xrange yrange of
        Inl e \<Rightarrow> Inl e
      | Inr (x_values, y_values) \<Rightarrow>
          if num_workers = 0 then Inl ZeroDivisionError
          else
            let interval_len = py_int (real_of_int side_size / real_of_int num_workers);
                intervals = map (\<lambda>i. i * interval_len) (py_range (num_workers + 1))
            in band_loop x_values y_values intervals (py_range workers) [])"

section \<open>Worker job and result collection\<close>

text \<open>
  A classification result is the row \<^verbatim>\<open>[x, y, int(mandelbrodt_pixel(x, y, steps))]\<close>. The
  result collection \<^verbatim>\<open>return_dict\<close> is a dictionary from worker index to the list of rows
  of that worker; a Python dictionary keeps its keys in insertion order and
  \<^verbatim>\<open>return_dict.values()\<close> is read in that order, so it is an association list here, and
  \<^verbatim>\<open>return_dict[procnum] = return_list\<close> is \<^const>\<open>AList.update\<close> (replace in place, or append).
\<close>

type_synonym sample = "real \<times> real"
type_synonym classification = "real \<times> real \<times> int"
type_synonym result_collection = "(int \<times> classification list) list"

fun job_loop :: "int \<Rightarrow> sample list \<Rightarrow> classification list \<Rightarrow> classification list" where
  "job_loop steps [] return_list = return_list"
| "job_loop steps ((x, y) # rest) return_list =
     job_loop steps rest (return_list @ [(x, y, of_bool (mandelbrodt_pixel x y steps))])"

definition mandelbrodt_job :: "sample list \<Rightarrow> int \<Rightarrow> int \<Rightarrow> result_collection \<Rightarrow> result_collection" where
  "mandelbrodt_job xy_values steps procnum return_dict =
     (let return_list = job_loop steps xy_values []
      in AList.update procnum return_list return_dict)"

text \<open>
  Lines 121 to 128: one process per element of \<^verbatim>\<open>enumerate(job_pairs)\<close>, all started, then
  all joined. A process touches the shared dictionary only in its last statement, so a run
  of the pool is determined by the order in which the processes that end normally reach
  that statement: \<open>completed\<close> lists their positions in \<^verbatim>\<open>enumerate(job_pairs)\<close> in that
  order. A process that ends abnormally writes nothing, and \<^verbatim>\<open>join\<close> returns for it all the
  same (the exit code is not read), so it simply does not occur in \<open>completed\<close>.
\<close>

definition py_enumerate :: "'a list \<Rightarrow> (int \<times> 'a) list" where
  "py_enumerate xs = zip (map int [0..<length xs]) xs"

definition run_workers :: "int \<Rightarrow> (int \<times> sample list) list \<Rightarrow> nat list \<Rightarrow> result_collection
    \<Rightarrow> result_collection" where
  "run_workers steps jobs completed return_dict =
     fold (\<lambda>k d. if k < length jobs
                   then (case jobs ! k of (i, xy_values) \<Rightarrow> mandelbrodt_job xy_values steps i d)
                   else d)
          completed return_dict"

section \<open>Rasterizer\<close>

text \<open>
  The numpy operations of \<^verbatim>\<open>get_ranks\<close>: \<^verbatim>\<open>np.unique\<close> (the sorted distinct values),
  \<^verbatim>\<open>np.argsort\<close> (the indices that sort an array; it is only applied to the result of
  \<^verbatim>\<open>np.unique\<close>, which has no ties), \<^verbatim>\<open>np.where(unique == element)\<close> (the indices where the
  comparison holds), indexing by an index array, and \<^verbatim>\<open>ravel\<close> (flattening).
\<close>

definition np_unique :: "'a::linorder list \<Rightarrow> 'a list" where
  "np_unique arr = sort (remdups arr)"

definition np_argsort :: "'a::linorder list \<Rightarrow> nat list" where
  "np_argsort arr = map snd (sort_key fst (zip arr [0..<length arr]))"

definition np_where_eq :: "'a list \<Rightarrow> 'a \<Rightarrow> nat list" where
  "np_where_eq arr element = filter (\<lambda>i. arr ! i = element) [0..<length arr]"

definition get_ranks :: "'a::linorder list \<Rightarrow> nat list" where
  "get_ranks arr =
     (let unique = np_unique arr;
          ranks = np_argsort unique
      in concat (map (\<lambda>element. map (\<lambda>i. ranks ! i) (np_where_eq unique element)) arr))"

text \<open>
  A PIL image in mode RGB: its size and its rows of pixels. \<^verbatim>\<open>Image.new\<close> fills it with
  black; \<^verbatim>\<open>putpixel\<close> raises \<^verbatim>\<open>IndexError\<close> outside the image.
\<close>

type_synonym rgb = "nat \<times> nat \<times> nat"

record image =
  width :: nat
  height :: nat
  pixels :: "rgb list list"

definition image_new :: "nat \<times> nat \<Rightarrow> image" where
  "image_new sz = (case sz of (w, h) \<Rightarrow>
     \<lparr>width = w, height = h, pixels = replicate h (replicate w (0, 0, 0))\<rparr>)"

definition putpixel :: "image \<Rightarrow> nat \<times> nat \<Rightarrow> rgb \<Rightarrow> py_error + image" where
  "putpixel im xy colour = (case xy of (x, y) \<Rightarrow>
     if x < width im \<and> y < height im
     then Inr (im\<lparr>pixels := (pixels im)[y := (pixels im ! y)[x := colour]]\<rparr>)
     else Inl IndexError)"

fun paint_loop :: "image \<Rightarrow> (nat \<times> nat \<times> int) list \<Rightarrow> py_error + image" where
  "paint_loop im [] = Inr im"
| "paint_loop im ((x, y, c) # rest) =
     (if c \<noteq> 0
      then (case putpixel im (x, y) (255, 255, 255) of
              Inl e \<Rightarrow> Inl e
            | Inr im' \<Rightarrow> paint_loop im' rest)
      else paint_loop im rest)"

text \<open>
  \<^verbatim>\<open>draw_fractal\<close>: \<^verbatim>\<open>np.array\<close> of an empty list has one dimension, so the column access
  \<^verbatim>\<open>fractal_list[:, 0]\<close> raises \<^verbatim>\<open>IndexError\<close>. The image written to \<^verbatim>\<open>fname\<close> is the value
  returned here.
\<close>

definition draw_fractal :: "classification list \<Rightarrow> py_error + image" where
  "draw_fractal fractal_list =
     (if fractal_list = [] then Inl IndexError
      else
        let x = get_ranks (map (\<lambda>(x, y, c). x) fractal_list);
            y = get_ranks (map (\<lambda>(x, y, c). y) fractal_list);
            color = map (\<lambda>(x, y, c). c) fractal_list;
            im = image_new (length (np_unique x), length (np_unique y))
        in paint_loop im (zip x (zip y color)))"

text \<open>
  Lines 118 to 137 for one pair of \<^verbatim>\<open>side_size\<close> and \<^verbatim>\<open>rep\<close>, with \<^verbatim>\<open>--draw-fractals\<close> set:
  partition, run the pool, flatten \<^verbatim>\<open>return_dict.values()\<close> and draw. The dictionary is
  created once before the loops and is an argument here; the updated dictionary is
  returned with the image.
\<close>

definition main_run :: "int \<Rightarrow> int \<Rightarrow> real \<times> real \<Rightarrow> real \<times> real \<Rightarrow> int \<Rightarrow> nat list
    \<Rightarrow> result_collection \<Rightarrow> py_error + (result_collection \<times> image)" where
  "main_run num_workers side_size xrange yrange steps completed return_dict =
     (case get_xy_pairs num_workers num_workers side_size xrange yrange of
        Inl e \<Rightarrow> Inl e
      | Inr job_pairs \<Rightarrow>
          let return_dict' = run_workers steps (py_enumerate job_pairs) completed return_dict;
              output = concat (map snd return_dict')
          in (case draw_fractal output of
                Inl e \<Rightarrow> Inl e
              | Inr im \<Rightarrow> Inr (return_dict', im)))"

section \<open>Specification vocabulary\<close>

text \<open>
  The definitions of this section are not taken from the source; they name the notions the
  properties below are stated with. \<open>classify\<close> is the row a worker produces for one
  sample. \<open>rank_of vs v\<close> is the 0-based position of the first occurrence of \<open>v\<close> in \<open>vs\<close>.
  \<open>render w h f\<close> is the image of size \<open>w\<close> by \<open>h\<close> whose pixel at \<open>(x, y)\<close> has colour
  \<open>f (x, y)\<close>. \<open>painted ts\<close> is the set of pixel positions of the rows \<open>ts\<close> whose colour flag
  is not zero, and \<open>rank_rows\<close> replaces the coordinates of every classification result by
  their positions among the sorted distinct coordinates of their column.
\<close>

definition classify :: "int \<Rightarrow> sample \<Rightarrow> classification" where
  "classify steps xy = (case xy of (x, y) \<Rightarrow> (x, y, of_bool (mandelbrodt_pixel x y steps)))"

definition rank_of :: "'a list \<Rightarrow> 'a \<Rightarrow> nat" where
  "rank_of sorted_values v = length (takeWhile (\<lambda>u. u \<noteq> v) sorted_values)"

definition render :: "nat \<Rightarrow> nat \<Rightarrow> (nat \<times> nat \<Rightarrow> rgb) \<Rightarrow> image" where
  "render w h f = \<lparr>width = w, height = h, pixels = map (\<lambda>y. map (\<lambda>x. f (x, y)) [0..<w]) [0..<h]\<rparr>"

definition painted :: "(nat \<times> nat \<times> int) list \<Rightarrow> (nat \<times> nat) set" where
  "painted ts = {(x, y). \<exists>c. (x, y, c) \<in> set ts \<and> c \<noteq> 0}"

definition rank_rows :: "classification list \<Rightarrow> (nat \<times> nat \<times> int) list" where
  "rank_rows fractal_list =
     map (\<lambda>(x, y, c). (rank_of (sorted_list_of_set ((\<lambda>(x, y, c). x) ` set fractal_list)) x,
                        rank_of (sorted_list_of_set ((\<lambda>(x, y, c). y) ` set fractal_list)) y, c))
         fractal_list"

section \<open>Properties of the escape-time classifier\<close>

declare mandelbrodt_while.simps [simp del]


















section \<open>Properties of the grid generator and the band partitioner\<close>

lemma py_range_upt: "py_range n = map int [0..<nat n]"
proof -
  have "[0..int k - 1] = map int [0..<k]" for k
  proof (induction k)
    case 0
    then show ?case by simp
  next
    case (Suc k)
    have "[0..int (Suc k) - 1] = [0..int k - 1] @ [int k]"
      using upto_rec2 [of 0 "int k"] by simp
    then show ?case using Suc by simp
  qed
  from this [of "nat n"] show ?thesis
    by (cases "0 \<le> n") (simp_all add: py_range_def)
qed

lemma py_index_nat: "k < length xs \<Longrightarrow> py_index xs (int k) = Inr (xs ! k)"
  by (simp add: py_index_def)

lemma py_int_div: "0 \<le> n \<Longrightarrow> 0 < w \<Longrightarrow> py_int (real_of_int n / real_of_int w) = n div w"
  by (simp add: py_int_def floor_divide_of_int_eq)

lemma py_slice_nat:
  "a \<le> b \<Longrightarrow> b \<le> length xs \<Longrightarrow> py_slice xs (int a) (int b) = take (b - a) (drop a xs)"
  by (simp add: py_slice_def py_slice_bound_def Let_def nat_diff_distrib')

lemma take_drop_nth: "b \<le> length xs \<Longrightarrow> take (b - a) (drop a xs) = map ((!) xs) [a..<b]"
  by (rule nth_equalityI) auto

lemma band_loop_ok:
  "(\<forall>i \<in> set js. py_index iv i = Inr (f i) \<and> py_index iv (i + 1) = Inr (g i)) \<Longrightarrow>
     band_loop xv yv iv js acc =
       Inr (acc @ map (\<lambda>i. List.product (py_slice xv (f i) (g i)) yv) js)"
proof (induction js arbitrary: acc)
  case Nil
  then show ?case by simp
next
  case (Cons j js)
  then show ?case by (simp add: List.product_concat_map)
qed

lemma concat_ranges: "concat (map (\<lambda>i. [i * L..<(i + 1) * L]) [0..<w]) = [0..<w * L]"
proof (induction w)
  case 0
  then show ?case by simp
next
  case (Suc w)
  have "[0..<w * L + L] = [0..<w * L] @ [w * L..<w * L + L]"
    by (metis upt_add_eq_append zero_le)
  then show ?case using Suc by (simp add: add.commute)
qed

lemma unique_band:
  assumes "j < w * (L::nat)"
  shows "\<exists>!i. i < w \<and> i * L \<le> j \<and> j < (i + 1) * L"
proof -
  have L: "0 < L" using assms by (cases L) simp_all
  show ?thesis
  proof (rule ex1I [of _ "j div L"])
    have "j div L < w" using assms L
      by (simp add: less_mult_imp_div_less)
    moreover have "j div L * L \<le> j" by simp
    moreover have "j < (j div L + 1) * L" using L
      by (metis Suc_eq_plus1 dividend_less_div_times mult.commute mult_Suc)
    ultimately show "j div L < w \<and> j div L * L \<le> j \<and> j < (j div L + 1) * L" by blast
  next
    fix i assume i: "i < w \<and> i * L \<le> j \<and> j < (i + 1) * L"
    then have "i \<le> j div L" using L by (simp add: less_eq_div_iff_mult_less_eq)
    moreover have "j div L < i + 1" using i L by (simp add: div_less_iff_less_mult)
    ultimately show "i = j div L" by simp
  qed
qed


lemma grid_values_eq:
  assumes "side_size \<noteq> 0"
  shows "grid_values side_size (a, b) (c, d) =
     Inr (map (\<lambda>i. min a b + real i * ((max a b - min a b) / real_of_int side_size)) [0..<nat side_size],
          map (\<lambda>i. min c d + real i * ((max c d - min c d) / real_of_int side_size)) [0..<nat side_size])"
  using assms
  by (simp add: grid_values_def py_range_upt Let_def comp_def min_def max_def)

lemma intervals_index:
  assumes "0 \<le> w" "k \<le> nat w"
  shows "py_index (map (\<lambda>i. i * l) (py_range (w + 1))) (int k) = Inr (int k * l)"
proof -
  have "k < length (map (\<lambda>i. i * l) (py_range (w + 1)))"
    using assms by (simp add: py_range_upt)
  from py_index_nat [OF this] show ?thesis
    using assms by (simp add: py_range_upt)
qed

lemma get_xy_pairs_eq:
  assumes W: "1 \<le> W" and n: "1 \<le> n"
    and g: "grid_values n xr yr = Inr (xs, ys)" and len: "length xs = nat n"
  shows "get_xy_pairs W W n xr yr =
     Inr (map (\<lambda>i. List.product (map ((!) xs) [i * nat (n div W)..<(i + 1) * nat (n div W)]) ys)
            [0..<nat W])"
proof -
  let ?l = "n div W" and ?L = "nat (n div W)"
  let ?iv = "map (\<lambda>i. i * ?l) (py_range (W + 1))"
  have l0: "0 \<le> ?l" using W n by (simp add: pos_imp_zdiv_nonneg_iff)
  have lL: "int ?L = ?l" using l0 by simp
  have WL: "nat W * ?L \<le> nat n"
  proof -
    have "W * ?l + n mod W = n" by simp
    moreover have "0 \<le> n mod W" using W by simp
    ultimately have "W * ?l \<le> n" by linarith
    then have "nat (W * ?l) \<le> nat n" by simp
    then show ?thesis using W l0 by (simp add: nat_mult_distrib)
  qed
  have idx: "\<forall>i \<in> set (py_range W). py_index ?iv i = Inr (i * ?l) \<and> py_index ?iv (i + 1) = Inr ((i + 1) * ?l)"
  proof
    fix i assume "i \<in> set (py_range W)"
    then obtain k where k: "i = int k" "k < nat W" by (auto simp: py_range_upt)
    have "py_index ?iv (int k) = Inr (int k * ?l)"
      using intervals_index [of W k ?l] W k by simp
    moreover have "py_index ?iv (int (Suc k)) = Inr (int (Suc k) * ?l)"
      using intervals_index [of W "Suc k" ?l] W k by simp
    ultimately show "py_index ?iv i = Inr (i * ?l) \<and> py_index ?iv (i + 1) = Inr ((i + 1) * ?l)"
      using k by (simp add: add.commute)
  qed
  have sl: "List.product (py_slice xs (int k * ?l) ((int k + 1) * ?l)) ys =
            List.product (map ((!) xs) [k * ?L..<(k + 1) * ?L]) ys" if "k < nat W" for k
  proof -
    have a: "int k * ?l = int (k * ?L)" unfolding of_nat_mult lL ..
    have b: "(int k + 1) * ?l = int ((k + 1) * ?L)" unfolding of_nat_mult of_nat_add lL by simp
    have "(k + 1) * ?L \<le> nat W * ?L" using that by (intro mult_le_mono1) simp
    then have le: "(k + 1) * ?L \<le> length xs" using WL len by simp
    have "py_slice xs (int (k * ?L)) (int ((k + 1) * ?L)) = take ((k + 1) * ?L - k * ?L) (drop (k * ?L) xs)"
      using le by (intro py_slice_nat) simp_all
    also have "\<dots> = map ((!) xs) [k * ?L..<(k + 1) * ?L]"
      using le by (rule take_drop_nth)
    finally show ?thesis unfolding a b by simp
  qed
  have "get_xy_pairs W W n xr yr = band_loop xs ys ?iv (py_range W) []"
    using W n g by (simp add: get_xy_pairs_def py_int_div Let_def)
  also have "\<dots> = Inr ([] @ map (\<lambda>i. List.product (py_slice xs (i * ?l) ((i + 1) * ?l)) ys) (py_range W))"
    using idx by (rule band_loop_ok)
  also have "map (\<lambda>i. List.product (py_slice xs (i * ?l) ((i + 1) * ?l)) ys) (py_range W) =
             map (\<lambda>k. List.product (map ((!) xs) [k * ?L..<(k + 1) * ?L]) ys) [0..<nat W]"
    unfolding py_range_upt map_map comp_def
    by (rule map_cong) (simp_all add: sl)
  finally show ?thesis by simp
qed






lemma grid_values_Inr:
  assumes "1 \<le> side_size"
  obtains xs ys where "grid_values side_size xr yr = Inr (xs, ys)"
    "length xs = nat side_size" "length ys = nat side_size"
proof -
  obtain a b c d where "xr = (a, b)" "yr = (c, d)" by (cases xr, cases yr) blast
  moreover have "side_size \<noteq> 0" using assms by simp
  ultimately show ?thesis using that by (simp add: grid_values_eq)
qed

lemma div_mult_nat:
  assumes "1 \<le> W" "1 \<le> (n::int)"
  shows "nat W * nat (n div W) = nat n - nat (n mod W)"
proof -
  have "0 \<le> n div W" using assms by (simp add: pos_imp_zdiv_nonneg_iff)
  moreover have "0 \<le> n mod W" using assms by simp
  moreover have "W * (n div W) = n - n mod W" by (simp add: algebra_simps)
  ultimately show ?thesis using assms
    by (metis nat_diff_distrib nat_mult_distrib zero_le_one order_trans zmod_le_nonneg_dividend)
qed

text \<open>
  C1. For every \<open>side_size \<ge> 1\<close> divisible by the worker count \<open>W \<ge> 1\<close>, \<open>get_xy_pairs\<close>
  returns \<open>W\<close> bands; with \<open>L = side_size div W\<close>, band \<open>i\<close> is the x-values at the indices
  \<open>[i * L, (i + 1) * L)\<close> in ascending order (outer loop), each paired with all of
  \<open>y_values\<close> in ascending order (inner loop). The index ranges of the bands, one after the
  other, are exactly \<open>0, 1, .., side_size - 1\<close>: every x-index lies in exactly one band.
\<close>

theorem bands_cover_divisible:
  assumes "1 \<le> W" "1 \<le> side_size" "W dvd side_size"
  shows "case grid_values side_size xr yr of
           Inl e \<Rightarrow> False
         | Inr (xs, ys) \<Rightarrow>
            (let L = nat (side_size div W) in
               length xs = nat side_size \<and> length ys = nat side_size
             \<and> get_xy_pairs W W side_size xr yr =
                 Inr (map (\<lambda>i. List.product (map ((!) xs) [i * L..<(i + 1) * L]) ys) [0..<nat W])
             \<and> concat (map (\<lambda>i. [i * L..<(i + 1) * L]) [0..<nat W]) = [0..<nat side_size]
             \<and> (\<forall>j<nat side_size. \<exists>!i. i < nat W \<and> i * L \<le> j \<and> j < (i + 1) * L))"
proof -
  obtain xs ys where g: "grid_values side_size xr yr = Inr (xs, ys)"
    and lx: "length xs = nat side_size" and ly: "length ys = nat side_size"
    using assms(2) by (rule grid_values_Inr)
  let ?L = "nat (side_size div W)"
  have "side_size mod W = 0" using assms(3) by simp
  then have WL: "nat W * ?L = nat side_size"
    using div_mult_nat [OF assms(1,2)] by simp
  have b: "get_xy_pairs W W side_size xr yr =
      Inr (map (\<lambda>i. List.product (map ((!) xs) [i * ?L..<(i + 1) * ?L]) ys) [0..<nat W])"
    using assms(1,2) g lx by (rule get_xy_pairs_eq)
  have c: "concat (map (\<lambda>i. [i * ?L..<(i + 1) * ?L]) [0..<nat W]) = [0..<nat side_size]"
    unfolding concat_ranges WL ..
  have u: "\<exists>!i. i < nat W \<and> i * ?L \<le> j \<and> j < (i + 1) * ?L" if "j < nat side_size" for j
    using that unfolding WL [symmetric] by (rule unique_band)
  show ?thesis unfolding g using lx ly b c u by (simp add: Let_def)
qed

text \<open>
  C2. For every \<open>side_size \<ge> 1\<close> not divisible by \<open>W \<ge> 1\<close>, \<open>get_xy_pairs\<close> raises no error
  and returns the \<open>W\<close> bands over the index ranges \<open>[i * L, (i + 1) * L)\<close>. With
  \<open>r = side_size mod W > 0\<close>, these ranges make up exactly \<open>0, .., side_size - r - 1\<close>: each of
  those x-indices lies in exactly one band, and the \<open>r\<close> trailing indices
  \<open>side_size - r, .., side_size - 1\<close> lie in no band.
\<close>

theorem bands_truncate_non_divisible:
  assumes "1 \<le> W" "1 \<le> side_size" "\<not> W dvd side_size"
  shows "case grid_values side_size xr yr of
           Inl e \<Rightarrow> False
         | Inr (xs, ys) \<Rightarrow>
            (let L = nat (side_size div W); r = nat (side_size mod W) in
               length xs = nat side_size \<and> 0 < r \<and> r \<le> nat side_size
             \<and> get_xy_pairs W W side_size xr yr =
                 Inr (map (\<lambda>i. List.product (map ((!) xs) [i * L..<(i + 1) * L]) ys) [0..<nat W])
             \<and> concat (map (\<lambda>i. [i * L..<(i + 1) * L]) [0..<nat W]) = [0..<nat side_size - r]
             \<and> (\<forall>j<nat side_size - r. \<exists>!i. i < nat W \<and> i * L \<le> j \<and> j < (i + 1) * L)
             \<and> (\<forall>j. nat side_size - r \<le> j \<longrightarrow> (\<forall>i<nat W. \<not> (i * L \<le> j \<and> j < (i + 1) * L))))"
proof -
  obtain xs ys where g: "grid_values side_size xr yr = Inr (xs, ys)"
    and lx: "length xs = nat side_size" and ly: "length ys = nat side_size"
    using assms(2) by (rule grid_values_Inr)
  let ?L = "nat (side_size div W)" and ?r = "nat (side_size mod W)"
  have WL: "nat W * ?L = nat side_size - ?r"
    using assms(1,2) by (rule div_mult_nat)
  have "side_size mod W \<noteq> 0" using assms(3) by (simp add: dvd_eq_mod_eq_0)
  moreover have "0 \<le> side_size mod W" using assms(1) by simp
  ultimately have r0: "0 < ?r" by simp
  have "side_size mod W \<le> side_size" using assms(1,2) by (simp add: zmod_le_nonneg_dividend)
  then have rn: "?r \<le> nat side_size" by simp
  have b: "get_xy_pairs W W side_size xr yr =
      Inr (map (\<lambda>i. List.product (map ((!) xs) [i * ?L..<(i + 1) * ?L]) ys) [0..<nat W])"
    using assms(1,2) g lx by (rule get_xy_pairs_eq)
  have c: "concat (map (\<lambda>i. [i * ?L..<(i + 1) * ?L]) [0..<nat W]) = [0..<nat side_size - ?r]"
    unfolding concat_ranges WL ..
  have u: "\<exists>!i. i < nat W \<and> i * ?L \<le> j \<and> j < (i + 1) * ?L" if "j < nat side_size - ?r" for j
    using that unfolding WL [symmetric] by (rule unique_band)
  have v: "\<not> (i * ?L \<le> j \<and> j < (i + 1) * ?L)" if "nat side_size - ?r \<le> j" "i < nat W" for i j
  proof -
    have "(i + 1) * ?L \<le> nat W * ?L" using that(2) by (intro mult_le_mono1) simp
    then show ?thesis using that(1) WL by simp
  qed
  show ?thesis unfolding g using lx r0 rn b c u v by (simp add: Let_def)
qed

text \<open>
  C10. For \<open>1 \<le> side_size < W\<close> the slice length \<open>int(side_size / W)\<close> is 0 and each of the
  \<open>W\<close> bands returned by \<open>get_xy_pairs\<close> is empty, without any error.
\<close>

theorem bands_empty_below_worker_count:
  assumes "1 \<le> side_size" "side_size < W"
  shows "py_int (real_of_int side_size / real_of_int W) = 0
       \<and> get_xy_pairs W W side_size xr yr = Inr (replicate (nat W) [])"
proof -
  have W: "1 \<le> W" using assms by simp
  obtain xs ys where g: "grid_values side_size xr yr = Inr (xs, ys)"
    and lx: "length xs = nat side_size"
    using assms(1) by (rule grid_values_Inr)
  have d: "side_size div W = 0" using assms by simp
  have "py_int (real_of_int side_size / real_of_int W) = side_size div W"
    using assms by (intro py_int_div) simp_all
  moreover have "get_xy_pairs W W side_size xr yr = Inr (replicate (nat W) [])"
    unfolding get_xy_pairs_eq [OF W assms(1) g lx] d by (simp add: map_replicate_const)
  ultimately show ?thesis using d by simp
qed


theorem bands_cover_divisible_witness:
  "(1::int) \<le> 2 \<and> (1::int) \<le> 4 \<and> (2::int) dvd 4
   \<and> get_xy_pairs 2 2 4 (-2, 1) (-3/2, 3/2) =
       Inr [[(-2, -3/2), (-2, -3/4), (-2, 0), (-2, 3/4),
             (-5/4, -3/2), (-5/4, -3/4), (-5/4, 0), (-5/4, 3/4)],
            [(-1/2, -3/2), (-1/2, -3/4), (-1/2, 0), (-1/2, 3/4),
             (1/4, -3/2), (1/4, -3/4), (1/4, 0), (1/4, 3/4)]]"
proof -
  have h: "(1::int) \<le> 2" "(1::int) \<le> 4" "(2::int) dvd 4" by simp_all
  have g: "grid_values 4 (-2, 1) (-3/2, 3/2) = Inr ([-2, -5/4, -1/2, 1/4], [-3/2, -3/4, 0, 3/4])"
    by code_simp
  from bands_cover_divisible [OF h, of "(-2, 1)" "(-3/2, 3/2)"]
  have "get_xy_pairs 2 2 4 (-2, 1) (-3/2, 3/2) =
      Inr (map (\<lambda>i. List.product (map ((!) [-2, -5/4, -1/2, 1/4]) [i * 2..<(i + 1) * 2])
                       [-3/2, -3/4, 0, 3/4]) [0..<2])"
    unfolding g by (simp add: Let_def)
  also have "\<dots> = Inr [[(-2, -3/2), (-2, -3/4), (-2, 0), (-2, 3/4),
             (-5/4, -3/2), (-5/4, -3/4), (-5/4, 0), (-5/4, 3/4)],
            [(-1/2, -3/2), (-1/2, -3/4), (-1/2, 0), (-1/2, 3/4),
             (1/4, -3/2), (1/4, -3/4), (1/4, 0), (1/4, 3/4)]]"
    by code_simp
  finally show ?thesis using h by simp
qed

theorem bands_truncate_non_divisible_witness:
  "(1::int) \<le> 2 \<and> (1::int) \<le> 3 \<and> \<not> (2::int) dvd 3
   \<and> get_xy_pairs 2 2 3 (0, 3) (0, 3) = Inr [[(0, 0), (0, 1), (0, 2)], [(1, 0), (1, 1), (1, 2)]]"
proof -
  have h: "(1::int) \<le> 2" "(1::int) \<le> 3" "\<not> (2::int) dvd 3" by simp_all
  have g: "grid_values 3 (0, 3) (0, 3) = Inr ([0, 1, 2], [0, 1, 2])"
    by code_simp
  from bands_truncate_non_divisible [OF h, of "(0, 3)" "(0, 3)"]
  have "get_xy_pairs 2 2 3 (0, 3) (0, 3) =
      Inr (map (\<lambda>i. List.product (map ((!) [0, 1, 2]) [i * 1..<(i + 1) * 1]) [0, 1, 2]) [0..<2])"
    unfolding g by (simp add: Let_def)
  also have "\<dots> = Inr [[(0, 0), (0, 1), (0, 2)], [(1, 0), (1, 1), (1, 2)]]"
    by code_simp
  finally show ?thesis using h by simp
qed

theorem bands_empty_below_worker_count_witness:
  "(1::int) \<le> 2 \<and> (2::int) < 3 \<and> get_xy_pairs 3 3 2 (-2, 1) (-3/2, 3/2) = Inr [[], [], []]"
proof -
  have h: "(1::int) \<le> 2" "(2::int) < 3" by simp_all
  from bands_empty_below_worker_count [OF h, of "(-2, 1)" "(-3/2, 3/2)"] h
  show ?thesis by (simp add: numeral_3_eq_3)
qed

section \<open>Properties of the rasterizer\<close>

lemma rank_of_less: "v \<in> set u \<Longrightarrow> rank_of u v < length u"
  unfolding rank_of_def by (induction u) auto

lemma rank_of_nth: "v \<in> set u \<Longrightarrow> u ! rank_of u v = v"
  unfolding rank_of_def by (induction u) auto

lemma np_unique_sorted_list: "np_unique arr = sorted_list_of_set (set arr)"
  by (simp add: np_unique_def sorted_list_of_set_sort_remdups)

lemma np_unique_props:
  "sorted (np_unique arr)" "distinct (np_unique arr)" "set (np_unique arr) = set arr"
  by (simp_all add: np_unique_def)

lemma np_argsort_sorted:
  assumes "sorted u"
  shows "np_argsort u = [0..<length u]"
proof -
  have "sorted (map fst (zip u [0..<length u]))" using assms by simp
  then have "sort_key fst (zip u [0..<length u]) = zip u [0..<length u]"
    by (rule sort_key_id_if_sorted)
  then show ?thesis by (simp add: np_argsort_def)
qed

lemma np_where_eq_distinct:
  assumes "distinct u" "k < length u"
  shows "np_where_eq u (u ! k) = [k]"
proof -
  let ?ws = "np_where_eq u (u ! k)"
  have "set ?ws = {k}"
    using assms by (auto simp: np_where_eq_def nth_eq_iff_index_eq)
  moreover have "sorted ?ws" unfolding np_where_eq_def by (rule sorted_wrt_filter) simp
  moreover have "distinct ?ws" by (simp add: np_where_eq_def)
  ultimately show ?thesis
    by (intro sorted_distinct_set_unique) simp_all
qed

lemma get_ranks_rank_of: "get_ranks arr = map (rank_of (np_unique arr)) arr"
proof -
  let ?u = "np_unique arr"
  have one: "map (\<lambda>i. np_argsort ?u ! i) (np_where_eq ?u e) = [rank_of ?u e]"
    if "e \<in> set arr" for e
  proof -
    have e: "e \<in> set ?u" using that by (simp add: np_unique_props)
    then have k: "rank_of ?u e < length ?u" "?u ! rank_of ?u e = e"
      by (simp_all add: rank_of_less rank_of_nth)
    have "np_where_eq ?u (?u ! rank_of ?u e) = [rank_of ?u e]"
      using np_unique_props(2) k(1) by (rule np_where_eq_distinct)
    then show ?thesis using k by (simp add: np_argsort_sorted np_unique_props)
  qed
  have "get_ranks arr = concat (map (\<lambda>e. [rank_of ?u e]) arr)"
    unfolding get_ranks_def Let_def
    by (rule arg_cong [where f = concat], rule map_cong) (simp_all add: one)
  then show ?thesis by simp
qed

lemma rank_of_inj: "inj_on (rank_of u) (set u)"
  by (rule inj_on_inverseI [where g = "\<lambda>k. u ! k"]) (simp add: rank_of_nth)

lemma card_get_ranks: "card (set (get_ranks arr)) = card (set arr)"
proof -
  have "set (get_ranks arr) = rank_of (np_unique arr) ` set (np_unique arr)"
    by (simp add: get_ranks_rank_of np_unique_props)
  then show ?thesis
    by (simp add: card_image rank_of_inj) (simp add: np_unique_props)
qed

lemma length_np_unique: "length (np_unique arr) = card (set arr)"
  by (simp add: np_unique_def length_remdups_card_conv)


lemma image_new_render: "image_new (w, h) = render w h (\<lambda>p. (0, 0, 0))"
  by (simp add: image_new_def render_def map_replicate_const)

lemma putpixel_render:
  assumes "x < w" "y < h"
  shows "putpixel (render w h f) (x, y) c = Inr (render w h (f((x, y) := c)))"
proof -
  let ?rows = "map (\<lambda>y. map (\<lambda>x. f (x, y)) [0..<w]) [0..<h]"
  have row: "(?rows ! y)[x := c] = map (\<lambda>x'. (f((x, y) := c)) (x', y)) [0..<w]"
    using assms by (intro nth_equalityI) (auto simp: nth_list_update)
  have "?rows[y := (?rows ! y)[x := c]] = map (\<lambda>y'. map (\<lambda>x'. (f((x, y) := c)) (x', y')) [0..<w]) [0..<h]"
    unfolding row using assms by (intro nth_equalityI) (auto simp: nth_list_update)
  then show ?thesis using assms by (simp add: putpixel_def render_def)
qed

lemma painted_Nil: "painted [] = {}"
  by (simp add: painted_def)

lemma painted_Cons:
  "painted ((x, y, c) # ts) = (if c \<noteq> 0 then insert (x, y) (painted ts) else painted ts)"
  by (auto simp: painted_def)

lemma paint_loop_render:
  assumes "\<And>x y. (x, y) \<in> painted ts \<Longrightarrow> x < w \<and> y < h"
  shows "paint_loop (render w h f) ts =
     Inr (render w h (\<lambda>p. if p \<in> painted ts then (255, 255, 255) else f p))"
  using assms
proof (induction ts arbitrary: f)
  case Nil
  then show ?case by (simp add: painted_Nil)
next
  case (Cons t ts)
  obtain x y c where t: "t = (x, y, c)" by (cases t)
  have rest: "x' < w \<and> y' < h" if "(x', y') \<in> painted ts" for x' y'
    using Cons.prems [of x' y'] that unfolding t painted_Cons by (simp split: if_splits)
  show ?case
  proof (cases "c = 0")
    case True
    then show ?thesis unfolding t using Cons.IH [OF rest] by (simp add: painted_Cons)
  next
    case False
    then have "x < w \<and> y < h" using Cons.prems [of x y] unfolding t painted_Cons by simp
    then have pp: "putpixel (render w h f) (x, y) (255, 255, 255) =
        Inr (render w h (f((x, y) := (255, 255, 255))))"
      by (simp add: putpixel_render)
    define f' where "f' = f((x, y) := (255, 255, 255))"
    have "paint_loop (render w h f) (t # ts) = paint_loop (render w h f') ts"
      unfolding t f'_def using False pp by simp
    also have "\<dots> = Inr (render w h (\<lambda>p. if p \<in> painted ts then (255, 255, 255) else f' p))"
      using rest by (rule Cons.IH)
    also have "(\<lambda>p. if p \<in> painted ts then (255, 255, 255) else f' p) =
          (\<lambda>p. if p \<in> painted (t # ts) then (255, 255, 255) else f p)"
      unfolding t f'_def using False by (intro ext) (simp add: painted_Cons)
    finally show ?thesis .
  qed
qed

lemma zip_map3: "zip (map f xs) (zip (map g xs) (map h xs)) = map (\<lambda>a. (f a, g a, h a)) xs"
  by (induction xs) simp_all

lemma zip_ranks:
  "zip (get_ranks (map (\<lambda>(x, y, c). x) fl)) (zip (get_ranks (map (\<lambda>(x, y, c). y) fl)) (map (\<lambda>(x, y, c). c) fl))
     = rank_rows fl"
  unfolding get_ranks_rank_of np_unique_sorted_list rank_rows_def map_map zip_map3
  by (simp add: comp_def case_prod_beta image_image)

lemma draw_fractal_render:
  assumes "fl \<noteq> []"
  shows "draw_fractal fl =
     Inr (render (card ((\<lambda>(x, y, c). x) ` set fl)) (card ((\<lambda>(x, y, c). y) ` set fl))
            (\<lambda>p. if p \<in> painted (rank_rows fl) then (255, 255, 255) else (0, 0, 0)))"
proof -
  let ?X = "(\<lambda>(x, y, c). x) ` set fl" and ?Y = "(\<lambda>(x, y, c). y) ` set fl"
  have w: "length (np_unique (get_ranks (map (\<lambda>(x, y, c). x) fl))) = card ?X"
    by (simp add: length_np_unique card_get_ranks)
  have h: "length (np_unique (get_ranks (map (\<lambda>(x, y, c). y) fl))) = card ?Y"
    by (simp add: length_np_unique card_get_ranks)
  have fin: "finite ?X" "finite ?Y" by simp_all
  have rng: "x < card ?X \<and> y < card ?Y" if "(x, y) \<in> painted (rank_rows fl)" for x y
  proof -
    from that obtain a b c where abc: "(a, b, c) \<in> set fl"
      and x: "x = rank_of (sorted_list_of_set ?X) a" and y: "y = rank_of (sorted_list_of_set ?Y) b"
      by (auto simp: painted_def rank_rows_def)
    have "a \<in> ?X" "b \<in> ?Y" using abc by force+
    then have "a \<in> set (sorted_list_of_set ?X)" "b \<in> set (sorted_list_of_set ?Y)"
      using fin by simp_all
    from rank_of_less [OF this(1)] rank_of_less [OF this(2)]
    show ?thesis unfolding x y using fin by simp
  qed
  show ?thesis
    unfolding draw_fractal_def Let_def zip_ranks w h image_new_render
    using assms paint_loop_render [of "rank_rows fl", OF rng] by simp
qed

lemma rank_rows_set: "set fl = set fl' \<Longrightarrow> painted (rank_rows fl) = painted (rank_rows fl')"
  by (simp add: painted_def rank_rows_def)

text \<open>
  C8. For every list of classification results and every permutation of it,
  \<open>draw_fractal\<close> gives the same outcome: the same image (same size, same colour at every
  pixel), or the same error for the empty list. The image therefore does not depend on
  the order in which the bands were produced or flattened.
\<close>

theorem draw_fractal_order_independent:
  assumes "mset fractal_list = mset fractal_list'"
  shows "draw_fractal fractal_list = draw_fractal fractal_list'"
proof (cases "fractal_list = []")
  case True
  then show ?thesis using assms by simp
next
  case False
  then have ne: "fractal_list' \<noteq> []" using assms by auto
  have s: "set fractal_list = set fractal_list'" using assms by (rule mset_eq_setD)
  show ?thesis
    unfolding draw_fractal_render [OF False] draw_fractal_render [OF ne] rank_rows_set [OF s] s ..
qed

text \<open>
  C7. For every array of coordinates, \<open>get_ranks\<close> maps each coordinate to the 0-based
  position of its value in the ascending sequence of the distinct values of the array.
  Hence the number of distinct ranks equals the number of distinct coordinate values, and
  the image drawn from a non-empty list of classification results is as wide as there are
  distinct x-values and as high as there are distinct y-values (the empty list is the
  only input on which \<open>draw_fractal\<close> raises).
\<close>

theorem get_ranks_sorted_position:
  "get_ranks arr = map (rank_of (sorted_list_of_set (set arr))) arr
   \<and> (\<forall>v \<in> set arr. rank_of (sorted_list_of_set (set arr)) v < card (set arr)
         \<and> sorted_list_of_set (set arr) ! rank_of (sorted_list_of_set (set arr)) v = v)
   \<and> card (set (get_ranks arr)) = card (set arr)
   \<and> (case draw_fractal fractal_list of
         Inl e \<Rightarrow> fractal_list = []
       | Inr im \<Rightarrow> width im = card ((\<lambda>(x, y, c). x) ` set fractal_list)
                 \<and> height im = card ((\<lambda>(x, y, c). y) ` set fractal_list))"
proof -
  let ?u = "sorted_list_of_set (set arr)"
  have a: "get_ranks arr = map (rank_of ?u) arr"
    unfolding get_ranks_rank_of np_unique_sorted_list ..
  have b: "rank_of ?u v < card (set arr) \<and> ?u ! rank_of ?u v = v" if "v \<in> set arr" for v
  proof -
    have "v \<in> set ?u" using that by simp
    from rank_of_less [OF this] rank_of_nth [OF this] show ?thesis by simp
  qed
  have c: "card (set (get_ranks arr)) = card (set arr)" by (rule card_get_ranks)
  have d: "case draw_fractal fractal_list of
         Inl e \<Rightarrow> fractal_list = []
       | Inr im \<Rightarrow> width im = card ((\<lambda>(x, y, c). x) ` set fractal_list)
                 \<and> height im = card ((\<lambda>(x, y, c). y) ` set fractal_list)"
  proof (cases "fractal_list = []")
    case True
    then show ?thesis by (simp add: draw_fractal_def)
  next
    case False
    show ?thesis unfolding draw_fractal_render [OF False] by (simp add: render_def)
  qed
  from a b c d show ?thesis by blast
qed

theorem get_ranks_sorted_position_witness:
  "get_ranks [3, 1, 2, 3, 1 :: real] = [2, 0, 1, 2, 0]
   \<and> card (set (get_ranks [3, 1, 2, 3, 1 :: real])) = card (set [3, 1, 2, 3, 1 :: real])"
proof -
  have "get_ranks [3, 1, 2, 3, 1 :: real] = [2, 0, 1, 2, 0]" by code_simp
  with get_ranks_sorted_position [of "[3, 1, 2, 3, 1 :: real]" "[]"] show ?thesis by blast
qed

theorem draw_fractal_order_independent_witness:
  "mset [(0, 0, 1), (1, 0, 0), (1, 1, 1 :: int)] = mset [(1, 1, 1), (0, 0, 1), (1 :: real, 0 :: real, 0)]
   \<and> draw_fractal [(0, 0, 1), (1, 0, 0), (1, 1, 1)] = draw_fractal [(1, 1, 1), (0, 0, 1), (1, 0, 0)]"
proof -
  have h: "mset [(0, 0, 1), (1, 0, 0), (1, 1, 1 :: int)] = mset [(1, 1, 1), (0, 0, 1), (1 :: real, 0 :: real, 0)]"
    by simp
  from draw_fractal_order_independent [OF h] h show ?thesis by blast
qed

section \<open>Properties of the worker pool\<close>

lemma job_loop_map: "job_loop steps xy_values acc = acc @ map (classify steps) xy_values"
  by (induction steps xy_values acc rule: job_loop.induct) (simp_all add: classify_def)

lemma mandelbrodt_job_update:
  "mandelbrodt_job xy_values steps procnum d = AList.update procnum (map (classify steps) xy_values) d"
  by (simp add: mandelbrodt_job_def job_loop_map)

lemma py_enumerate_nth: "k < length xs \<Longrightarrow> py_enumerate xs ! k = (int k, xs ! k)"
  by (simp add: py_enumerate_def)

lemma run_workers_Nil: "run_workers steps jobs [] d = d"
  by (simp add: run_workers_def)

lemma run_workers_Cons:
  "k < length job_pairs \<Longrightarrow>
   run_workers steps (py_enumerate job_pairs) (k # ks) d =
   run_workers steps (py_enumerate job_pairs) ks
     (AList.update (int k) (map (classify steps) (job_pairs ! k)) d)"
  by (simp add: run_workers_def py_enumerate_nth mandelbrodt_job_update) (simp add: py_enumerate_def)

lemma run_workers_map_of:
  "\<forall>k \<in> set ks. k < length job_pairs \<Longrightarrow>
   map_of (run_workers steps (py_enumerate job_pairs) ks d) i =
     (if i \<in> int ` set ks then Some (map (classify steps) (job_pairs ! nat i)) else map_of d i)"
proof (induction ks arbitrary: d)
  case Nil
  show ?case by (simp add: run_workers_Nil)
next
  case (Cons k ks)
  have k: "k < length job_pairs" and ks: "\<forall>j \<in> set ks. j < length job_pairs"
    using Cons.prems by simp_all
  show ?case unfolding run_workers_Cons [OF k] Cons.IH [OF ks]
    by (auto simp: update_conv')
qed

lemma run_workers_keys:
  "\<forall>k \<in> set ks. k < length job_pairs \<Longrightarrow>
   fst ` set (run_workers steps (py_enumerate job_pairs) ks d) = int ` set ks \<union> fst ` set d"
proof (induction ks arbitrary: d)
  case Nil
  show ?case by (simp add: run_workers_Nil)
next
  case (Cons k ks)
  have k: "k < length job_pairs" and ks: "\<forall>j \<in> set ks. j < length job_pairs"
    using Cons.prems by simp_all
  show ?case unfolding run_workers_Cons [OF k] Cons.IH [OF ks] dom_update by auto
qed

lemma run_workers_distinct:
  "\<forall>k \<in> set ks. k < length job_pairs \<Longrightarrow> distinct (map fst d) \<Longrightarrow>
   distinct (map fst (run_workers steps (py_enumerate job_pairs) ks d))"
proof (induction ks arbitrary: d)
  case Nil
  then show ?case by (simp add: run_workers_Nil)
next
  case (Cons k ks)
  have k: "k < length job_pairs" and ks: "\<forall>j \<in> set ks. j < length job_pairs"
    using Cons.prems(1) by simp_all
  have "distinct (map fst (AList.update (int k) (map (classify steps) (job_pairs ! k)) d))"
    using Cons.prems(2) by (rule distinct_update)
  with ks show ?case unfolding run_workers_Cons [OF k] by (rule Cons.IH)
qed

lemma sum_list_alist:
  assumes "distinct (map fst d)"
  shows "sum_list (map (\<lambda>(k, v). g v) d) = (\<Sum>k \<in> fst ` set d. g (the (map_of d k)))"
  using assms
proof (induction d)
  case Nil
  then show ?case by simp
next
  case (Cons p d)
  obtain k v where p: "p = (k, v)" by (cases p)
  have nk: "k \<notin> fst ` set d" and dd: "distinct (map fst d)" using Cons.prems by (simp_all add: p)
  have "(\<Sum>j \<in> fst ` set d. g (the (map_of (p # d) j))) = (\<Sum>j \<in> fst ` set d. g (the (map_of d j)))"
    using nk by (intro sum.cong) (auto simp: p)
  then show ?case using nk Cons.IH [OF dd] by (simp add: p)
qed


lemma int_image_upt: "0 \<le> W \<Longrightarrow> int ` {0..<nat W} = {0..W - 1}"
proof (intro set_eqI iffI)
  fix i assume "0 \<le> W" "i \<in> int ` {0..<nat W}"
  then show "i \<in> {0..W - 1}" by auto
next
  fix i assume "0 \<le> W" "i \<in> {0..W - 1}"
  then have "i = int (nat i)" "nat i \<in> {0..<nat W}" by auto
  then show "i \<in> int ` {0..<nat W}" by (rule image_eqI)
qed

text \<open>
  C6. Let all \<open>W\<close> workers complete, in any order, starting from a collection whose keys lie
  in \<open>0 .. W - 1\<close> (empty before the first run). Then the result collection has exactly the
  \<open>W\<close> keys \<open>0 .. W - 1\<close>; key \<open>i\<close> holds one classification result per sample of band \<open>i\<close>, in
  band order; and the number of classification results over all keys is
  \<open>int(side_size / W) * W * side_size\<close>.
\<close>

theorem result_collection_complete:
  assumes W: "1 \<le> W" and n: "1 \<le> side_size"
    and dc: "distinct completed" and sc: "set completed = {0..<nat W}"
    and dd: "distinct (map fst return_dict)" and kd: "fst ` set return_dict \<subseteq> {0..W - 1}"
  shows "case get_xy_pairs W W side_size xr yr of
           Inl e \<Rightarrow> False
         | Inr job_pairs \<Rightarrow>
            (let d = run_workers steps (py_enumerate job_pairs) completed return_dict in
               length job_pairs = nat W
             \<and> distinct (map fst d) \<and> fst ` set d = {0..W - 1} \<and> length d = nat W
             \<and> (\<forall>i<nat W. map_of d (int i) =
                   Some (map (\<lambda>(x, y). (x, y, of_bool (mandelbrodt_pixel x y steps))) (job_pairs ! i)))
             \<and> int (sum_list (map (\<lambda>(i, rs). length rs) d)) =
                 py_int (real_of_int side_size / real_of_int W) * W * side_size)"
proof -
  obtain xs ys where g: "grid_values side_size xr yr = Inr (xs, ys)"
    and lx: "length xs = nat side_size" and ly: "length ys = nat side_size"
    using n by (rule grid_values_Inr)
  let ?L = "nat (side_size div W)"
  define jp where "jp = map (\<lambda>i. List.product (map ((!) xs) [i * ?L..<(i + 1) * ?L]) ys) [0..<nat W]"
  have e: "get_xy_pairs W W side_size xr yr = Inr jp"
    unfolding jp_def using W n g lx by (rule get_xy_pairs_eq)
  define d where "d = run_workers steps (py_enumerate jp) completed return_dict"
  have cl: "classify steps = (\<lambda>(x, y). (x, y, of_bool (mandelbrodt_pixel x y steps)))"
    by (rule ext) (simp add: classify_def)
  have lj: "length jp = nat W" by (simp add: jp_def)
  have bnd: "\<forall>k \<in> set completed. k < length jp" using sc lj by simp
  have W0: "0 \<le> W" using W by simp
  have c1: "distinct (map fst d)" unfolding d_def using bnd dd by (rule run_workers_distinct)
  have c2: "fst ` set d = {0..W - 1}"
    unfolding d_def run_workers_keys [OF bnd] sc int_image_upt [OF W0] using kd by auto
  have "card (set (map fst d)) = length (map fst d)" using c1 by (rule distinct_card)
  moreover have "set (map fst d) = {0..W - 1}" using c2 by simp
  ultimately have c3: "length d = nat W" using W by simp
  have c4: "map_of d (int i) = Some (map (classify steps) (jp ! i))" if "i < nat W" for i
    unfolding d_def run_workers_map_of [OF bnd] using that sc by simp
  have len: "length (jp ! i) = ?L * nat side_size" if "i < nat W" for i
    using that by (simp add: jp_def ly)
  have "sum_list (map (\<lambda>(i, rs). length rs) d) = (\<Sum>k \<in> fst ` set d. length (the (map_of d k)))"
    using c1 by (rule sum_list_alist)
  also have "\<dots> = (\<Sum>k \<in> int ` {0..<nat W}. length (the (map_of d k)))"
    unfolding c2 int_image_upt [OF W0] ..
  also have "\<dots> = (\<Sum>i \<in> {0..<nat W}. length (the (map_of d (int i))))"
    by (subst sum.reindex) (simp_all add: comp_def)
  also have "\<dots> = (\<Sum>i \<in> {0..<nat W}. ?L * nat side_size)"
    by (rule sum.cong) (simp_all add: c4 len)
  also have "\<dots> = nat W * (?L * nat side_size)" by simp
  finally have "int (sum_list (map (\<lambda>(i, rs). length rs) d)) = int (nat W * (?L * nat side_size))"
    by simp
  also have "\<dots> = (side_size div W) * W * side_size"
  proof -
    have "0 \<le> side_size div W" using W n by (simp add: pos_imp_zdiv_nonneg_iff)
    then show ?thesis using W n by simp
  qed
  also have "side_size div W = py_int (real_of_int side_size / real_of_int W)"
    using W n by (intro py_int_div [symmetric]) simp_all
  finally have c5: "int (sum_list (map (\<lambda>(i, rs). length rs) d)) =
      py_int (real_of_int side_size / real_of_int W) * W * side_size" .
  show ?thesis
    unfolding e using lj c1 c2 c3 c4 c5 by (simp add: Let_def d_def [symmetric] cl)
qed

theorem result_collection_complete_witness:
  "(1::int) \<le> 2 \<and> (1::int) \<le> 2 \<and> distinct [1, 0 :: nat] \<and> set [1, 0 :: nat] = {0..<nat 2}
   \<and> get_xy_pairs 2 2 2 (0, 2) (0, 2) = Inr [[(0, 0), (0, 1)], [(1, 0), (1, 1)]]
   \<and> sum_list (map (\<lambda>(i, rs). length rs)
        (run_workers 5 (py_enumerate [[(0, 0), (0, 1)], [(1, 0), (1, 1)]]) [1, 0] [])) = 4"
proof -
  have h: "(1::int) \<le> 2" "(1::int) \<le> 2" "distinct [1, 0 :: nat]" "set [1, 0 :: nat] = {0..<nat 2}"
    "distinct (map fst ([] :: result_collection))" "fst ` set ([] :: result_collection) \<subseteq> {0..2 - 1}"
    by auto
  have g: "get_xy_pairs 2 2 2 (0, 2) (0, 2) = Inr [[(0, 0), (0, 1)], [(1, 0), (1, 1)]]"
    by code_simp
  from result_collection_complete [OF h, where xr = "(0, 2)" and yr = "(0, 2)" and steps = 5]
  have "int (sum_list (map (\<lambda>(i, rs). length rs)
        (run_workers 5 (py_enumerate [[(0, 0), (0, 1)], [(1, 0), (1, 1)]]) [1, 0] []))) =
        py_int (real_of_int 2 / real_of_int 2) * 2 * 2"
    unfolding g by (simp add: Let_def)
  then have "sum_list (map (\<lambda>(i, rs). length rs)
        (run_workers 5 (py_enumerate [[(0, 0), (0, 1)], [(1, 0), (1, 1)]]) [1, 0] [])) = 4"
    by (simp add: py_int_def)
  with h g show ?thesis by blast
qed

lemma update_fresh: "k \<notin> fst ` set d \<Longrightarrow> AList.update k v d = d @ [(k, v)]"
  by (induction d) auto

lemma run_workers_fresh:
  "\<forall>k \<in> set ks. k < length job_pairs \<Longrightarrow> distinct ks \<Longrightarrow> int ` set ks \<inter> fst ` set d = {} \<Longrightarrow>
   run_workers steps (py_enumerate job_pairs) ks d =
     d @ map (\<lambda>k. (int k, map (classify steps) (job_pairs ! k))) ks"
proof (induction ks arbitrary: d)
  case Nil
  show ?case by (simp add: run_workers_Nil)
next
  case (Cons k ks)
  have k: "k < length job_pairs" and ks: "\<forall>j \<in> set ks. j < length job_pairs"
    using Cons.prems(1) by simp_all
  let ?v = "map (classify steps) (job_pairs ! k)"
  have fresh: "int k \<notin> fst ` set d" using Cons.prems(3) by auto
  have u: "AList.update (int k) ?v d = d @ [(int k, ?v)]"
    using fresh by (rule update_fresh)
  have dk: "distinct ks" and nk: "k \<notin> set ks" using Cons.prems(2) by simp_all
  have disj: "int ` set ks \<inter> fst ` set (d @ [(int k, ?v)]) = {}"
    using Cons.prems(3) nk by auto
  show ?case
    unfolding run_workers_Cons [OF k] u Cons.IH [OF ks dk disj] by simp
qed

text \<open>
  C9 as stated fails. The main program joins its processes and never reads an exit code,
  so a worker that ends abnormally is not noticed. With two workers started and only
  worker 0 completing, the run raises nothing and draws an image from the collection that
  lacks key 1.
\<close>

theorem partial_collection_counterexample:
  "get_xy_pairs 2 2 2 (0, 2) (0, 2) = Inr [[(0, 0), (0, 1)], [(1, 0), (1, 1)]]
   \<and> main_run 2 2 (0, 2) (0, 2) 5 [0] [] =
       Inr ([(0, [(0, 0, 1), (0, 1, 1)])],
            \<lparr>width = 1, height = 2, pixels = [[(255, 255, 255)], [(255, 255, 255)]]\<rparr>)"
  by code_simp

text \<open>
  C9, amended. When workers end abnormally, no error is raised for them: started from an
  empty collection, the result collection after the joins holds exactly the entries of the
  workers that completed, in completion order, each with the full classification of its
  band, and \<open>draw_fractal\<close> is applied to the concatenation of these entries. The image is
  produced from the partial collection, to which a missing band contributes no sample;
  the run fails only where \<open>draw_fractal\<close> itself raises.
\<close>

theorem partial_collection_is_drawn:
  assumes W: "1 \<le> W" and n: "1 \<le> side_size"
    and dc: "distinct completed" and sc: "set completed \<subseteq> {0..<nat W}"
  shows "case get_xy_pairs W W side_size xr yr of
           Inl e \<Rightarrow> False
         | Inr job_pairs \<Rightarrow>
             length job_pairs = nat W
           \<and> run_workers steps (py_enumerate job_pairs) completed [] =
               map (\<lambda>k. (int k, map (classify steps) (job_pairs ! k))) completed
           \<and> main_run W side_size xr yr steps completed [] =
               (case draw_fractal (concat (map (\<lambda>k. map (classify steps) (job_pairs ! k)) completed)) of
                  Inl e \<Rightarrow> Inl e
                | Inr im \<Rightarrow>
                    Inr (map (\<lambda>k. (int k, map (classify steps) (job_pairs ! k))) completed, im))"
proof -
  obtain xs ys where g: "grid_values side_size xr yr = Inr (xs, ys)"
    and lx: "length xs = nat side_size"
    using n by (rule grid_values_Inr)
  let ?L = "nat (side_size div W)"
  define jp where "jp = map (\<lambda>i. List.product (map ((!) xs) [i * ?L..<(i + 1) * ?L]) ys) [0..<nat W]"
  have e: "get_xy_pairs W W side_size xr yr = Inr jp"
    unfolding jp_def using W n g lx by (rule get_xy_pairs_eq)
  have lj: "length jp = nat W" by (simp add: jp_def)
  have bnd: "\<forall>k \<in> set completed. k < length jp" using sc lj by auto
  have "run_workers steps (py_enumerate jp) completed [] =
      [] @ map (\<lambda>k. (int k, map (classify steps) (jp ! k))) completed"
    using bnd dc by (rule run_workers_fresh) simp
  then have r: "run_workers steps (py_enumerate jp) completed [] =
      map (\<lambda>k. (int k, map (classify steps) (jp ! k))) completed"
    by simp
  have m: "main_run W side_size xr yr steps completed [] =
      (case draw_fractal (concat (map (\<lambda>k. map (classify steps) (jp ! k)) completed)) of
         Inl e \<Rightarrow> Inl e
       | Inr im \<Rightarrow> Inr (map (\<lambda>k. (int k, map (classify steps) (jp ! k))) completed, im))"
    by (simp add: main_run_def e r Let_def comp_def)
  show ?thesis unfolding e using lj r m by simp
qed

theorem partial_collection_is_drawn_witness:
  "(1::int) \<le> 2 \<and> distinct [0 :: nat] \<and> set [0 :: nat] \<subseteq> {0..<nat 2}
   \<and> run_workers 5 (py_enumerate [[(0, 0), (0, 1)], [(1, 0), (1, 1)]]) [0] [] =
       [(0, [(0, 0, 1), (0, 1, 1)])]"
proof -
  have h: "(1::int) \<le> 2" "(1::int) \<le> 2" "distinct [0 :: nat]" "set [0 :: nat] \<subseteq> {0..<nat 2}"
    by auto
  have g: "get_xy_pairs 2 2 2 (0, 2) (0, 2) = Inr [[(0, 0), (0, 1)], [(1, 0), (1, 1)]]"
    by code_simp
  have c: "map (classify 5) [(0, 0), (0, 1)] = [(0, 0, 1), (0, 1, 1)]"
    by code_simp
  from partial_collection_is_drawn [OF h, where xr = "(0, 2)" and yr = "(0, 2)" and steps = 5]
  have "run_workers 5 (py_enumerate [[(0, 0), (0, 1)], [(1, 0), (1, 1)]]) [0] [] =
       map (\<lambda>k. (int k, map (classify 5) ([[(0, 0), (0, 1)], [(1, 0), (1, 1)]] ! k))) [0]"
    unfolding g by simp
  then show ?thesis using h c by simp
qed

end
